theory Spec2Isabelle
  imports Complex_Main "HOL-Library.Finite_Map" "HOL-Library.Multiset"
    "HOL-Library.Char_ord" "HOL-Library.List_Lexorder"
begin

section \<open>wasm-metadce: the graph description and its loader\<close>

text \<open>
  The embedding follows \<^verbatim>\<open>src/tools/wasm-metadce.cpp\<close>. The tool reads a wasm module and a
  JSON description of a reachability graph, and fills a \<^verbatim>\<open>MetaDCEGraph\<close> from the JSON in
  one loop of \<^verbatim>\<open>main\<close>. Every \<^verbatim>\<open>Fatal()\<close> of that loop is a value of \<open>error\<close>, and the loop
  is a recursive function over the array's elements that threads the graph.
\<close>

subsection \<open>Names and parsed JSON\<close>

type_synonym Name = string

text \<open>
  The value tree that \<^verbatim>\<open>cashew::Value::parse\<close> delivers. A number is never inspected by the
  loader. An object is its list of key/value pairs; \<open>has\<close> and the index operator read the
  first pair of a key.
\<close>

datatype json =
    JNull
  | JBool bool
  | JNumber real
  | JString string
  | JArray "json list"
  | JObject "(string \<times> json) list"


definition elements :: "json \<Rightarrow> json list" where
  "elements js = (case js of JArray refs \<Rightarrow> refs | _ \<Rightarrow> [])"

text \<open>
  Modelled from the spec: the one-argument \<^verbatim>\<open>isArray\<close> of the same header, which is not among
  the sources. It is the header's test for a node tagged by its first element: the value
  is an array and its first element is the given string. On an empty array the header
  indexes out of range; the model lets the test fail there.
\<close>

definition isArray_with :: "json \<Rightarrow> string \<Rightarrow> bool" where
  "isArray_with v what = (case v of JArray (JString s # rest) \<Rightarrow> s = what | _ \<Rightarrow> False)"

definition isObject :: "json \<Rightarrow> bool" where
  "isObject v = (case v of JObject kvs \<Rightarrow> True | _ \<Rightarrow> False)"

definition isString :: "json \<Rightarrow> bool" where
  "isString v = (case v of JString s \<Rightarrow> True | _ \<Rightarrow> False)"

definition isBool :: "json \<Rightarrow> bool" where
  "isBool v = (case v of JBool b \<Rightarrow> True | _ \<Rightarrow> False)"

definition getBool :: "json \<Rightarrow> bool" where
  "getBool v = (case v of JBool b \<Rightarrow> b | _ \<Rightarrow> False)"

definition field :: "json \<Rightarrow> string \<Rightarrow> json option" where
  "field v k = (case v of JObject kvs \<Rightarrow> map_of kvs k | _ \<Rightarrow> None)"

definition has :: "json \<Rightarrow> string \<Rightarrow> bool" where
  "has v k = (field v k \<noteq> None)"

definition NAME :: string where "NAME = ''name''"
definition REACHES :: string where "REACHES = ''reaches''"
definition ROOT :: string where "ROOT = ''root''"
definition EXPORT :: string where "EXPORT = ''export''"
definition IMPORT :: string where "IMPORT = ''import''"

subsection \<open>The module\<close>

text \<open>
  Modelled from the spec: \<^verbatim>\<open>wasm.h\<close> is not among the sources. Of the module the tool needs
  its export table (the exported names) and its import table (the internal name of each
  import with the module and base it is imported from).
\<close>

record Import =
  imp_name :: Name
  imp_module :: Name
  imp_base :: Name

record Module =
  module_exports :: "Name list"
  module_imports :: "Import list"

subsection \<open>Errors\<close>

text \<open>
  One constructor for each \<^verbatim>\<open>Fatal()\<close> of the loop, in the order of the source, then the
  errors of the parts that are modelled from the spec.
\<close>

datatype error =
    GraphNotArray
  | NodeNotObject
  | NodeNoName
  | NodeNameNotString
  | ReachesNotArray
  | ReachesItemNotString
  | RootNotTrue
  | ExportNotString
  | ImportNotTwoStrings
  | UnresolvedImport
  | DanglingReference

text \<open>
  Modelled from the spec: \<^verbatim>\<open>ImportUtils::getImport\<close> of \<^verbatim>\<open>ir/import-utils.h\<close>, which is not
  among the sources. It resolves a pair of module and base to the internal name of the
  module's import, and the resolution fails when the module has no such import.
\<close>

definition getImport :: "Module \<Rightarrow> Name \<Rightarrow> Name \<Rightarrow> error + Name" where
  "getImport wasm m b =
     (case find (\<lambda>i. imp_module i = m \<and> imp_base i = b) (module_imports wasm) of
        None \<Rightarrow> Inl UnresolvedImport
      | Some i \<Rightarrow> Inr (imp_name i))"

subsection \<open>The graph\<close>

record DCENode =
  name :: Name
  reaches :: "Name list"

definition mkDCENode :: "Name \<Rightarrow> DCENode" where
  "mkDCENode n = \<lparr>name = n, reaches = []\<rparr>"

record MetaDCEGraph =
  nodes :: "(Name, DCENode) fmap"
  roots :: "Name list"
  wasm :: Module
  importToDCENode :: "(Name, Name) fmap"
  exportToDCENode :: "(Name, Name) fmap"

definition mkMetaDCEGraph :: "Module \<Rightarrow> MetaDCEGraph" where
  "mkMetaDCEGraph w =
     \<lparr>nodes = fmempty, roots = [], wasm = w,
      importToDCENode = fmempty, exportToDCENode = fmempty\<rparr>"

subsection \<open>The loader\<close>

text \<open>Sequencing of steps that may stop with a fatal error.\<close>

definition thenE :: "error + 'a \<Rightarrow> ('a \<Rightarrow> error + 'b) \<Rightarrow> error + 'b" where
  "thenE r f = (case r of Inl e \<Rightarrow> Inl e | Inr x \<Rightarrow> f x)"

text \<open>
  Lines 177 to 183: the record must be an object with a name, and the node is constructed
  from the name. Line 180 writes \<^verbatim>\<open>node.has(NAME)\<close> before \<^verbatim>\<open>node\<close> is declared; the test is the
  one on the record, \<^verbatim>\<open>ref.has(NAME)\<close>, as the message beside it says. The source hands
  \<^verbatim>\<open>ref[NAME]\<close> to the constructor of \<^verbatim>\<open>DCENode\<close>, which takes a \<^verbatim>\<open>Name\<close>; a value that is not a
  string has no name, and the model stops there.
\<close>

definition node_of :: "json \<Rightarrow> error + DCENode" where
  "node_of ref =
     (if \<not> isObject ref then Inl NodeNotObject
      else case field ref NAME of
        None \<Rightarrow> Inl NodeNoName
      | Some (JString n) \<Rightarrow> Inr (mkDCENode n)
      | Some _ \<Rightarrow> Inl NodeNameNotString)"

text \<open>Lines 189 to 196: the inner loop over the items of \<^verbatim>\<open>reaches\<close>.\<close>

fun push_reaches :: "json list \<Rightarrow> DCENode \<Rightarrow> error + DCENode" where
  "push_reaches [] node = Inr node"
| "push_reaches (item # items) node =
     (case item of
        JString s \<Rightarrow> push_reaches items (node\<lparr>reaches := reaches node @ [s]\<rparr>)
      | _ \<Rightarrow> Inl ReachesItemNotString)"

text \<open>
  Lines 184 to 197. The guard of line 186 is \<^verbatim>\<open>reaches.isArray(NAME)\<close>, as the source writes
  it: a \<open>reaches\<close> field passes when it is an array whose first item is the string \<open>name\<close>.
  The loop then pushes every item, the first one too.
\<close>

definition load_reaches :: "json \<Rightarrow> DCENode \<Rightarrow> error + DCENode" where
  "load_reaches ref node =
     (case field ref REACHES of
        None \<Rightarrow> Inr node
      | Some rs \<Rightarrow>
          if \<not> isArray_with rs NAME then Inl ReachesNotArray
          else push_reaches (elements rs) node)"

text \<open>Lines 198 to 204.\<close>

definition load_root :: "json \<Rightarrow> DCENode \<Rightarrow> MetaDCEGraph \<Rightarrow> error + MetaDCEGraph" where
  "load_root ref node graph =
     (case field ref ROOT of
        None \<Rightarrow> Inr graph
      | Some rt \<Rightarrow>
          if \<not> isBool rt \<or> \<not> getBool rt then Inl RootNotTrue
          else Inr (graph\<lparr>roots := roots graph @ [name node]\<rparr>))"

text \<open>Lines 205 to 211.\<close>

definition load_export :: "json \<Rightarrow> DCENode \<Rightarrow> MetaDCEGraph \<Rightarrow> error + MetaDCEGraph" where
  "load_export ref node graph =
     (case field ref EXPORT of
        None \<Rightarrow> Inr graph
      | Some (JString ex) \<Rightarrow>
          Inr (graph\<lparr>exportToDCENode := fmupd ex (name node) (exportToDCENode graph)\<rparr>)
      | Some _ \<Rightarrow> Inl ExportNotString)"

text \<open>Lines 212 to 218.\<close>

definition load_import :: "json \<Rightarrow> DCENode \<Rightarrow> MetaDCEGraph \<Rightarrow> error + MetaDCEGraph" where
  "load_import ref node graph =
     (case field ref IMPORT of
        None \<Rightarrow> Inr graph
      | Some (JArray [JString m, JString b]) \<Rightarrow>
          thenE (getImport (wasm graph) m b) (\<lambda>internal.
            Inr (graph\<lparr>importToDCENode := fmupd internal (name node) (importToDCENode graph)\<rparr>))
      | Some _ \<Rightarrow> Inl ImportNotTwoStrings)"

text \<open>Line 220.\<close>

definition add_node :: "DCENode \<Rightarrow> MetaDCEGraph \<Rightarrow> MetaDCEGraph" where
  "add_node node graph = graph\<lparr>nodes := fmupd (name node) node (nodes graph)\<rparr>"

text \<open>The body of the loop over the records, lines 176 to 220.\<close>

definition load_node :: "json \<Rightarrow> MetaDCEGraph \<Rightarrow> error + MetaDCEGraph" where
  "load_node ref graph =
     thenE (node_of ref) (\<lambda>node0.
     thenE (load_reaches ref node0) (\<lambda>node.
     thenE (load_root ref node graph) (\<lambda>graph1.
     thenE (load_export ref node graph1) (\<lambda>graph2.
     thenE (load_import ref node graph2) (\<lambda>graph3.
     Inr (add_node node graph3))))))"

text \<open>The loop, lines 175 to 221.\<close>

fun load_nodes :: "json list \<Rightarrow> MetaDCEGraph \<Rightarrow> error + MetaDCEGraph" where
  "load_nodes [] graph = Inr graph"
| "load_nodes (ref # refs) graph = thenE (load_node ref graph) (load_nodes refs)"

text \<open>Lines 170 to 221.\<close>

definition load :: "Module \<Rightarrow> json \<Rightarrow> error + MetaDCEGraph" where
  "load w js =
     (case js of
        JArray refs \<Rightarrow> load_nodes refs (mkMetaDCEGraph w)
      | _ \<Rightarrow> Inl GraphNotArray)"


section \<open>Reachability and pruning\<close>

subsection \<open>The Reachability Engine\<close>

text \<open>
  Modelled from the spec: the Reachability Engine (section 4.4), which the source does not
  contain: \<^verbatim>\<open>main\<close> ends after the loader. The traversal is breadth first from all the root
  names, follows the \<open>reaches\<close> edges, and guards each expansion by the visited set. A name
  taken from the frontier that is not in the node store is the fatal DanglingReference
  error. The traversal ends when the frontier is empty. The visited names are kept in the
  order of their expansion; the Reachable Set is the set of them.
\<close>

function traverse :: "(Name, DCENode) fmap \<Rightarrow> Name list \<Rightarrow> Name list \<Rightarrow> error + Name list" where
  "traverse ns [] visited = Inr visited"
| "traverse ns (n # frontier) visited =
     (if n \<in> set visited then traverse ns frontier visited
      else case fmlookup ns n of
        None \<Rightarrow> Inl DanglingReference
      | Some node \<Rightarrow> traverse ns (frontier @ reaches node) (visited @ [n]))"
  by pat_completeness auto
termination
proof (relation "measures [\<lambda>(ns, fr, vis). card (fmdom' ns - set vis),
                          \<lambda>(ns, fr, vis). length fr]")
  show "wf (measures [\<lambda>(ns, fr, vis). card (fmdom' ns - set vis),
                          \<lambda>(ns :: (Name, DCENode) fmap, fr :: Name list, vis :: Name list). length fr])"
    by simp
next
  fix ns :: "(Name, DCENode) fmap" and n :: Name and frontier visited :: "Name list"
  show "((ns, frontier, visited), (ns, n # frontier, visited))
        \<in> measures [\<lambda>(ns, fr, vis). card (fmdom' ns - set vis), \<lambda>(ns, fr, vis). length fr]"
    by simp
next
  fix ns :: "(Name, DCENode) fmap" and n :: Name and frontier visited :: "Name list"
    and node :: DCENode
  assume fresh: "n \<notin> set visited" and found: "fmlookup ns n = Some node"
  have mem: "n \<in> fmdom' ns - set visited"
    using fresh found by (simp add: fmdom'I)
  have eq: "fmdom' ns - set (visited @ [n]) = (fmdom' ns - set visited) - {n}"
    by auto
  have "card ((fmdom' ns - set visited) - {n}) < card (fmdom' ns - set visited)"
    by (rule card_Diff1_less) (use mem in simp_all)
  then have "card (fmdom' ns - set (visited @ [n])) < card (fmdom' ns - set visited)"
    by (simp only: eq)
  then show "((ns, frontier @ reaches node, visited @ [n]), (ns, n # frontier, visited))
        \<in> measures [\<lambda>(ns, fr, vis). card (fmdom' ns - set vis), \<lambda>(ns, fr, vis). length fr]"
    by simp
qed

text \<open>
  Modelled from the spec: \<open>compute(graph)\<close> of section 4.4, the set of the names that the
  traversal from the roots has visited.
\<close>

definition compute :: "MetaDCEGraph \<Rightarrow> error + Name set" where
  "compute graph = map_sum id set (traverse (nodes graph) (roots graph) [])"

subsection \<open>The Pruning/Report Generator\<close>






section \<open>Vocabulary of the properties\<close>

subsection \<open>What a record says\<close>

text \<open>
  The name, the edges and the node that a record of the input describes: the string under
  \<open>name\<close>, the strings of the array under \<open>reaches\<close>, and the node made of both.
\<close>

primrec strings_of :: "json list \<Rightarrow> Name list" where
  "strings_of [] = []"
| "strings_of (v # vs) = (case v of JString s \<Rightarrow> s # strings_of vs | _ \<Rightarrow> strings_of vs)"

definition rec_name :: "json \<Rightarrow> Name" where
  "rec_name ref = (case field ref NAME of Some (JString n) \<Rightarrow> n | _ \<Rightarrow> [])"

definition rec_reaches :: "json \<Rightarrow> Name list" where
  "rec_reaches ref = (case field ref REACHES of Some (JArray items) \<Rightarrow> strings_of items | _ \<Rightarrow> [])"

definition rec_node :: "json \<Rightarrow> DCENode" where
  "rec_node ref = \<lparr>name = rec_name ref, reaches = rec_reaches ref\<rparr>"

subsection \<open>Records that the loop accepts\<close>

text \<open>
  The conditions under which each step of the loop body passes, read off the guards of the
  source. A record is accepted for a module when all of them hold.
\<close>

definition name_ok :: "json \<Rightarrow> bool" where
  "name_ok ref = (isObject ref \<and> (\<exists>n. field ref NAME = Some (JString n)))"

definition reaches_ok :: "json \<Rightarrow> bool" where
  "reaches_ok ref =
     (case field ref REACHES of
        None \<Rightarrow> True
      | Some rs \<Rightarrow> isArray_with rs NAME \<and> list_all isString (elements rs))"

definition root_ok :: "json \<Rightarrow> bool" where
  "root_ok ref = (case field ref ROOT of None \<Rightarrow> True | Some v \<Rightarrow> v = JBool True)"

definition export_ok :: "json \<Rightarrow> bool" where
  "export_ok ref = (case field ref EXPORT of None \<Rightarrow> True | Some v \<Rightarrow> isString v)"

definition has_import :: "Module \<Rightarrow> Name \<Rightarrow> Name \<Rightarrow> bool" where
  "has_import w m b = list_ex (\<lambda>i. imp_module i = m \<and> imp_base i = b) (module_imports w)"

definition import_ok :: "Module \<Rightarrow> json \<Rightarrow> bool" where
  "import_ok w ref =
     (case field ref IMPORT of
        None \<Rightarrow> True
      | Some (JArray [JString m, JString b]) \<Rightarrow> has_import w m b
      | Some _ \<Rightarrow> False)"

definition accepted :: "Module \<Rightarrow> json \<Rightarrow> bool" where
  "accepted w ref =
     (name_ok ref \<and> reaches_ok ref \<and> root_ok ref \<and> export_ok ref \<and> import_ok w ref)"

subsection \<open>Reachability as a relation\<close>

text \<open>
  The edges of a node store, and the names that can be reached from a list of names along
  the edges.
\<close>

definition edges :: "(Name, DCENode) fmap \<Rightarrow> (Name \<times> Name) set" where
  "edges ns = {(n, m). \<exists>node. fmlookup ns n = Some node \<and> m \<in> set (reaches node)}"

definition reachable :: "(Name, DCENode) fmap \<Rightarrow> Name list \<Rightarrow> Name set" where
  "reachable ns rs = (edges ns)\<^sup>* `` set rs"

subsection \<open>The example scenario\<close>

text \<open>
  The example of the spec: \<open>e1\<close> is a root and reaches \<open>e2\<close>, which is bound to the export
  \<open>myExport\<close>; \<open>e3\<close> is bound to \<open>unusedExport\<close>. The \<open>reaches\<close> list is written so that the
  guard of line 186 lets it pass: its first item is the string \<open>name\<close>, which the loop stores
  as an edge like the others, and a record of that name closes the graph.
\<close>

definition example_module :: Module where
  "example_module = \<lparr>module_exports = [''myExport'', ''unusedExport''], module_imports = []\<rparr>"

definition bare_module :: Module where
  "bare_module = \<lparr>module_exports = [], module_imports = []\<rparr>"

definition example_json :: json where
  "example_json = JArray
     [JObject [(''name'', JString ''e1''),
               (''reaches'', JArray [JString ''name'', JString ''e2'']),
               (''root'', JBool True)],
      JObject [(''name'', JString ''e2''), (''export'', JString ''myExport'')],
      JObject [(''name'', JString ''e3''), (''export'', JString ''unusedExport'')],
      JObject [(''name'', JString ''name'')]]"

definition example_graph :: MetaDCEGraph where
  "example_graph =
     \<lparr>nodes = fmupd ''name'' \<lparr>name = ''name'', reaches = []\<rparr>
               (fmupd ''e3'' \<lparr>name = ''e3'', reaches = []\<rparr>
               (fmupd ''e2'' \<lparr>name = ''e2'', reaches = []\<rparr>
               (fmupd ''e1'' \<lparr>name = ''e1'', reaches = [''name'', ''e2'']\<rparr> fmempty))),
      roots = [''e1''],
      wasm = example_module,
      importToDCENode = fmempty,
      exportToDCENode = fmupd ''unusedExport'' ''e3'' (fmupd ''myExport'' ''e2'' fmempty)\<rparr>"

subsection \<open>Further example inputs\<close>

text \<open>
  Three records of which the first and the last bear the same name, and a graph with a
  root \<open>a\<close> and a node \<open>b\<close> that reaches names that no record bears.
\<close>

definition dup_records :: "json list" where
  "dup_records =
     [JObject [(''name'', JString ''a''),
               (''reaches'', JArray [JString ''name'', JString ''b'']),
               (''root'', JBool True)],
      JObject [(''name'', JString ''b'')],
      JObject [(''name'', JString ''a'')]]"

definition dangling_records :: "json list" where
  "dangling_records =
     [JObject [(''name'', JString ''a''), (''root'', JBool True)],
      JObject [(''name'', JString ''b''),
               (''reaches'', JArray [JString ''name'', JString ''ghost''])]]"

definition dangling_json :: json where
  "dangling_json = JArray dangling_records"

definition dangling_graph :: MetaDCEGraph where
  "dangling_graph =
     \<lparr>nodes = fmupd ''b'' \<lparr>name = ''b'', reaches = [''name'', ''ghost'']\<rparr>
               (fmupd ''a'' \<lparr>name = ''a'', reaches = []\<rparr> fmempty),
      roots = [''a''],
      wasm = bare_module,
      importToDCENode = fmempty,
      exportToDCENode = fmempty\<rparr>"

subsection \<open>The removable exports in the words of section 4.5 (a)\<close>


subsection \<open>The malformed inputs that the spec lists\<close>





subsection \<open>Example inputs for the linkage\<close>






subsection \<open>Example graphs for the traversal and the report\<close>

text \<open>
  A cycle of two nodes with the root \<open>A\<close>; a module that exports \<open>foo\<close> and \<open>bar\<close> with a
  graph whose root reaches the node bound to \<open>foo\<close>, no node being bound to \<open>bar\<close>; and the
  records of a graph in two orders, two of the records bearing the same name.
\<close>

definition cycle_graph :: MetaDCEGraph where
  "cycle_graph =
     \<lparr>nodes = fmupd ''B'' \<lparr>name = ''B'', reaches = [''A'']\<rparr>
               (fmupd ''A'' \<lparr>name = ''A'', reaches = [''B'']\<rparr> fmempty),
      roots = [''A''],
      wasm = bare_module,
      importToDCENode = fmempty,
      exportToDCENode = fmempty\<rparr>"




definition order_one :: "json list" where
  "order_one =
     [JObject [(''name'', JString ''a''),
               (''reaches'', JArray [JString ''name'', JString ''b'']),
               (''root'', JBool True)],
      JObject [(''name'', JString ''a'')],
      JObject [(''name'', JString ''b'')],
      JObject [(''name'', JString ''name'')]]"

definition order_two :: "json list" where
  "order_two =
     [JObject [(''name'', JString ''a'')],
      JObject [(''name'', JString ''a''),
               (''reaches'', JArray [JString ''name'', JString ''b'']),
               (''root'', JBool True)],
      JObject [(''name'', JString ''b'')],
      JObject [(''name'', JString ''name'')]]"

definition example_permuted :: "json list" where
  "example_permuted =
     [JObject [(''name'', JString ''name'')],
      JObject [(''name'', JString ''e3''), (''export'', JString ''unusedExport'')],
      JObject [(''name'', JString ''e2''), (''export'', JString ''myExport'')],
      JObject [(''name'', JString ''e1''),
               (''reaches'', JArray [JString ''name'', JString ''e2'']),
               (''root'', JBool True)]]"

section \<open>Properties of the loader\<close>

lemma thenE_Inr: "thenE r f = Inr y \<longleftrightarrow> (\<exists>x. r = Inr x \<and> f x = Inr y)"
  by (cases r) (simp_all add: thenE_def)

lemma thenE_Inl: "thenE r f = Inl e \<longleftrightarrow> r = Inl e \<or> (\<exists>x. r = Inr x \<and> f x = Inl e)"
  by (cases r) (simp_all add: thenE_def)

lemma push_reaches_Inr:
  "push_reaches items node = Inr node' \<Longrightarrow>
     node' = node\<lparr>reaches := reaches node @ strings_of items\<rparr>"
proof (induction items arbitrary: node)
  case Nil
  then show ?case by simp
next
  case (Cons item items)
  show ?case
  proof (cases item)
    case (JString s)
    with Cons.prems have "push_reaches items (node\<lparr>reaches := reaches node @ [s]\<rparr>) = Inr node'"
      by simp
    from Cons.IH[OF this] JString show ?thesis by simp
  qed (use Cons.prems in simp_all)
qed

lemma node_of_Inr: "node_of ref = Inr node \<Longrightarrow> node = mkDCENode (rec_name ref) \<and> field ref NAME = Some (JString (rec_name ref))"
  by (auto simp: node_of_def rec_name_def split: if_splits option.splits json.splits)

lemma load_reaches_Inr:
  "load_reaches ref (mkDCENode n) = Inr node \<Longrightarrow> node = \<lparr>name = n, reaches = rec_reaches ref\<rparr>"
  by (auto simp: load_reaches_def rec_reaches_def mkDCENode_def isArray_with_def elements_def
      dest!: push_reaches_Inr split: option.splits json.splits list.splits if_splits)

lemma load_root_Inr:
  "load_root ref node g = Inr g' \<Longrightarrow>
     g' = g\<lparr>roots := roots g @ (if has ref ROOT then [name node] else [])\<rparr>"
  by (auto simp: load_root_def has_def split: option.splits if_splits)

lemma load_export_Inr:
  "load_export ref node g = Inr g' \<Longrightarrow>
     nodes g' = nodes g \<and> roots g' = roots g \<and> wasm g' = wasm g \<and>
     importToDCENode g' = importToDCENode g"
  by (auto simp: load_export_def split: option.splits json.splits)

lemma load_import_Inr:
  "load_import ref node g = Inr g' \<Longrightarrow>
     nodes g' = nodes g \<and> roots g' = roots g \<and> wasm g' = wasm g \<and>
     exportToDCENode g' = exportToDCENode g"
  by (auto simp: load_import_def thenE_Inr split: option.splits json.splits list.splits)

lemma load_node_Inr:
  assumes "load_node ref g = Inr g'"
  shows "nodes g' = fmupd (rec_name ref) (rec_node ref) (nodes g)"
    and "roots g' = roots g @ (if has ref ROOT then [rec_name ref] else [])"
    and "wasm g' = wasm g"
proof -
  from assms obtain node0 node g1 g2 g3 where
    n0: "node_of ref = Inr node0" and n1: "load_reaches ref node0 = Inr node" and
    r: "load_root ref node g = Inr g1" and e: "load_export ref node g1 = Inr g2" and
    i: "load_import ref node g2 = Inr g3" and a: "g' = add_node node g3"
    unfolding load_node_def thenE_Inr by auto
  from n0 n1 have node: "node = rec_node ref"
    by (auto dest!: node_of_Inr load_reaches_Inr simp: rec_node_def)
  have nm: "name node = rec_name ref" by (simp add: node rec_node_def)
  show "nodes g' = fmupd (rec_name ref) (rec_node ref) (nodes g)"
    using load_root_Inr[OF r] load_export_Inr[OF e] load_import_Inr[OF i] a nm node
    by (simp add: add_node_def)
  show "roots g' = roots g @ (if has ref ROOT then [rec_name ref] else [])"
    using load_root_Inr[OF r] load_export_Inr[OF e] load_import_Inr[OF i] a nm
    by (simp add: add_node_def)
  show "wasm g' = wasm g"
    using load_root_Inr[OF r] load_export_Inr[OF e] load_import_Inr[OF i] a
    by (simp add: add_node_def)
qed

lemma find_snoc:
  "find P (xs @ [x]) = (case find P xs of Some y \<Rightarrow> Some y | None \<Rightarrow> if P x then Some x else None)"
  by (induction xs) simp_all

lemma load_nodes_lookup:
  "load_nodes refs g = Inr g' \<Longrightarrow>
     fmlookup (nodes g') n =
       (case find (\<lambda>r. rec_name r = n) (rev refs) of
          Some r \<Rightarrow> Some (rec_node r)
        | None \<Rightarrow> fmlookup (nodes g) n)"
proof (induction refs arbitrary: g)
  case Nil
  then show ?case by simp
next
  case (Cons ref refs)
  from Cons.prems obtain g1 where s: "load_node ref g = Inr g1" and r: "load_nodes refs g1 = Inr g'"
    by (auto simp: thenE_Inr)
  show ?case
    using Cons.IH[OF r] load_node_Inr(1)[OF s]
    by (auto simp: find_snoc split: option.splits)
qed

lemma load_nodes_roots:
  "load_nodes refs g = Inr g' \<Longrightarrow>
     roots g' = roots g @ map rec_name (filter (\<lambda>r. has r ROOT) refs)"
proof (induction refs arbitrary: g)
  case Nil
  then show ?case by simp
next
  case (Cons ref refs)
  from Cons.prems obtain g1 where s: "load_node ref g = Inr g1" and r: "load_nodes refs g1 = Inr g'"
    by (auto simp: thenE_Inr)
  show ?case
    using Cons.IH[OF r] load_node_Inr(2)[OF s] by simp
qed

lemma load_nodes_wasm: "load_nodes refs g = Inr g' \<Longrightarrow> wasm g' = wasm g"
proof (induction refs arbitrary: g)
  case Nil
  then show ?case by simp
next
  case (Cons ref refs)
  then show ?case by (auto simp: thenE_Inr dest: load_node_Inr(3))
qed

lemma node_of_ok: "(\<exists>node. node_of ref = Inr node) \<longleftrightarrow> name_ok ref"
  by (auto simp: node_of_def name_ok_def split: option.splits json.splits)

lemma push_reaches_ok: "(\<exists>node'. push_reaches items node = Inr node') \<longleftrightarrow> list_all isString items"
proof (induction items arbitrary: node)
  case Nil
  then show ?case by simp
next
  case (Cons item items)
  show ?case by (cases item) (simp_all add: isString_def Cons.IH)
qed

lemma load_reaches_ok: "(\<exists>node'. load_reaches ref node = Inr node') \<longleftrightarrow> reaches_ok ref"
  by (simp add: load_reaches_def reaches_ok_def push_reaches_ok split: option.splits)

lemma load_root_ok: "(\<exists>g'. load_root ref node g = Inr g') \<longleftrightarrow> root_ok ref"
  by (auto simp: load_root_def root_ok_def isBool_def getBool_def split: option.splits json.splits)

lemma load_export_ok: "(\<exists>g'. load_export ref node g = Inr g') \<longleftrightarrow> export_ok ref"
  by (simp add: load_export_def export_ok_def isString_def split: option.splits json.splits)

lemma getImport_ok: "(\<exists>i. getImport w m b = Inr i) \<longleftrightarrow> has_import w m b"
proof -
  have "find (\<lambda>i. imp_module i = m \<and> imp_base i = b) (module_imports w) = None
          \<longleftrightarrow> \<not> has_import w m b"
    by (auto simp: find_None_iff has_import_def list_ex_iff)
  then show ?thesis
    by (cases "find (\<lambda>i. imp_module i = m \<and> imp_base i = b) (module_imports w)")
       (simp_all add: getImport_def)
qed

lemma load_import_ok: "(\<exists>g'. load_import ref node g = Inr g') \<longleftrightarrow> import_ok (wasm g) ref"
  using getImport_ok[of "wasm g"]
  by (simp add: load_import_def import_ok_def thenE_Inr split: option.splits json.splits list.splits)

lemma load_node_ok: "(\<exists>g'. load_node ref g = Inr g') \<longleftrightarrow> accepted (wasm g) ref"
proof
  assume "\<exists>g'. load_node ref g = Inr g'"
  then obtain node0 node g1 g2 g3 where
    n0: "node_of ref = Inr node0" and n1: "load_reaches ref node0 = Inr node" and
    r: "load_root ref node g = Inr g1" and e: "load_export ref node g1 = Inr g2" and
    i: "load_import ref node g2 = Inr g3"
    unfolding load_node_def thenE_Inr by auto
  have "wasm g2 = wasm g"
    using load_root_Inr[OF r] load_export_Inr[OF e] by simp
  then show "accepted (wasm g) ref"
    using n0 n1 r e i node_of_ok load_reaches_ok load_root_ok load_export_ok load_import_ok
    unfolding accepted_def by metis
next
  assume a: "accepted (wasm g) ref"
  then obtain node0 where n0: "node_of ref = Inr node0"
    using node_of_ok by (auto simp: accepted_def)
  from a obtain node where n1: "load_reaches ref node0 = Inr node"
    using load_reaches_ok[of ref node0] by (auto simp: accepted_def)
  from a obtain g1 where r: "load_root ref node g = Inr g1"
    using load_root_ok[of ref node g] by (auto simp: accepted_def)
  from a obtain g2 where e: "load_export ref node g1 = Inr g2"
    using load_export_ok[of ref node g1] by (auto simp: accepted_def)
  have w: "wasm g2 = wasm g"
    using load_root_Inr[OF r] load_export_Inr[OF e] by simp
  from a w obtain g3 where i: "load_import ref node g2 = Inr g3"
    using load_import_ok[of ref node g2] by (auto simp: accepted_def)
  show "\<exists>g'. load_node ref g = Inr g'"
    by (simp add: load_node_def thenE_def n0 n1 r e i)
qed

lemma load_nodes_ok: "(\<exists>g'. load_nodes refs g = Inr g') \<longleftrightarrow> (\<forall>r\<in>set refs. accepted (wasm g) r)"
proof (induction refs arbitrary: g)
  case Nil
  then show ?case by simp
next
  case (Cons ref refs)
  show ?case
  proof (cases "load_node ref g")
    case (Inl e)
    then have "\<not> accepted (wasm g) ref"
      using load_node_ok[of ref g] by simp
    with Inl show ?thesis by (simp add: thenE_def)
  next
    case (Inr g1)
    then have "accepted (wasm g) ref" "wasm g1 = wasm g"
      using load_node_ok[of ref g] load_node_Inr(3)[of ref g g1] by auto
    with Inr Cons.IH[of g1] show ?thesis by (simp add: thenE_def)
  qed
qed

lemma load_ok: "(\<exists>g. load w js = Inr g) \<longleftrightarrow> (\<exists>refs. js = JArray refs \<and> (\<forall>r\<in>set refs. accepted w r))"
  by (cases js) (simp_all add: load_def load_nodes_ok mkMetaDCEGraph_def)

lemma push_reaches_error: "push_reaches items node = Inl e \<Longrightarrow> e = ReachesItemNotString"
proof (induction items arbitrary: node)
  case Nil
  then show ?case by simp
next
  case (Cons item items)
  then show ?case by (cases item) auto
qed

lemma getImport_error: "getImport w m b = Inl e \<Longrightarrow> e = UnresolvedImport"
  by (auto simp: getImport_def split: option.splits)

lemma load_node_error:
  assumes "load_node ref g = Inl e"
  shows "e \<in> {NodeNotObject, NodeNoName, NodeNameNotString, ReachesNotArray,
           ReachesItemNotString, RootNotTrue, ExportNotString, ImportNotTwoStrings,
           UnresolvedImport}"
proof -
  have a: "node_of ref = Inl e \<Longrightarrow> ?thesis"
    by (auto simp: node_of_def split: if_splits option.splits json.splits)
  have b: "load_reaches ref node = Inl e \<Longrightarrow> ?thesis" for node
    by (auto simp: load_reaches_def dest: push_reaches_error split: option.splits if_splits)
  have c: "load_root ref node g' = Inl e \<Longrightarrow> ?thesis" for node g'
    by (auto simp: load_root_def split: if_splits option.splits)
  have d: "load_export ref node g' = Inl e \<Longrightarrow> ?thesis" for node g'
    by (auto simp: load_export_def split: option.splits json.splits)
  have f: "load_import ref node g' = Inl e \<Longrightarrow> ?thesis" for node g'
    by (auto simp: load_import_def thenE_Inl dest: getImport_error
        split: option.splits json.splits list.splits)
  from assms a b c d f show ?thesis
    unfolding load_node_def thenE_Inl by blast
qed

lemma load_nodes_error:
  "load_nodes refs g = Inl e \<Longrightarrow>
     e \<in> {NodeNotObject, NodeNoName, NodeNameNotString, ReachesNotArray,
           ReachesItemNotString, RootNotTrue, ExportNotString, ImportNotTwoStrings,
           UnresolvedImport}"
proof (induction refs arbitrary: g)
  case Nil
  then show ?case by simp
next
  case (Cons ref refs)
  from Cons.prems consider "load_node ref g = Inl e"
    | g1 where "load_node ref g = Inr g1" "load_nodes refs g1 = Inl e"
    by (auto simp: thenE_Inl)
  then show ?case
  proof cases
    case 1
    then show ?thesis by (rule load_node_error)
  next
    case 2
    then show ?thesis using Cons.IH by blast
  qed
qed

section \<open>Properties of the traversal\<close>

lemma edges_Image_single:
  "fmlookup ns n = Some node \<Longrightarrow> edges ns `` {n} = set (reaches node)"
  by (auto simp: edges_def)

lemma rtrancl_Image_closed_modulo:
  assumes "E `` V \<subseteq> V \<union> F"
  shows "E\<^sup>* `` V \<subseteq> V \<union> E\<^sup>* `` F"
proof
  fix y assume "y \<in> E\<^sup>* `` V"
  then obtain x where x: "x \<in> V" and xy: "(x, y) \<in> E\<^sup>*" by auto
  from xy x show "y \<in> V \<union> E\<^sup>* `` F"
  proof (induction rule: rtrancl_induct)
    case base
    then show ?case by simp
  next
    case (step y z)
    from step.IH[OF step.prems] show ?case
    proof
      assume "y \<in> V"
      with step.hyps(2) have "z \<in> E `` V" by auto
      with assms show ?thesis by auto
    next
      assume "y \<in> E\<^sup>* `` F"
      with step.hyps(2) show ?thesis by (auto intro: rtrancl_into_rtrancl)
    qed
  qed
qed

lemma rtrancl_Image_step: "E\<^sup>* `` {n} = insert n (E\<^sup>* `` (E `` {n}))"
proof
  show "E\<^sup>* `` {n} \<subseteq> insert n (E\<^sup>* `` (E `` {n}))"
  proof
    fix y assume "y \<in> E\<^sup>* `` {n}"
    then have "(n, y) \<in> E\<^sup>*" by simp
    then show "y \<in> insert n (E\<^sup>* `` (E `` {n}))"
      by (cases rule: converse_rtranclE) auto
  qed
  show "insert n (E\<^sup>* `` (E `` {n})) \<subseteq> E\<^sup>* `` {n}"
    by (auto intro: converse_rtrancl_into_rtrancl)
qed

lemma traverse_Inr:
  "traverse ns fr vis = Inr out \<Longrightarrow> edges ns `` set vis \<subseteq> set vis \<union> set fr \<Longrightarrow>
     set out = set vis \<union> (edges ns)\<^sup>* `` set fr"
proof (induction ns fr vis rule: traverse.induct)
  case (1 ns visited)
  then show ?case by simp
next
  case (2 ns n frontier visited)
  let ?E = "edges ns"
  show ?case
  proof (cases "n \<in> set visited")
    case True
    with "2.prems" have run: "traverse ns frontier visited = Inr out"
      and inv: "?E `` set visited \<subseteq> set visited \<union> set frontier"
      by auto
    have out: "set out = set visited \<union> ?E\<^sup>* `` set frontier"
      using "2.IH"(1)[OF True run inv] .
    have "?E\<^sup>* `` {n} \<subseteq> ?E\<^sup>* `` set visited"
      using True by auto
    also have "\<dots> \<subseteq> set visited \<union> ?E\<^sup>* `` set frontier"
      using inv by (rule rtrancl_Image_closed_modulo)
    finally have "?E\<^sup>* `` set (n # frontier) \<subseteq> set visited \<union> ?E\<^sup>* `` set frontier"
      by auto
    moreover have "?E\<^sup>* `` set frontier \<subseteq> ?E\<^sup>* `` set (n # frontier)"
      by auto
    ultimately show ?thesis using out by blast
  next
    case False
    with "2.prems"(1) obtain node where found: "fmlookup ns n = Some node"
      and run: "traverse ns (frontier @ reaches node) (visited @ [n]) = Inr out"
      by (auto split: option.splits)
    have en: "?E `` {n} = set (reaches node)"
      using found by (rule edges_Image_single)
    have inv: "?E `` set (visited @ [n]) \<subseteq> set (visited @ [n]) \<union> set (frontier @ reaches node)"
      using "2.prems"(2) en by auto
    have out: "set out = set (visited @ [n]) \<union> ?E\<^sup>* `` set (frontier @ reaches node)"
      using "2.IH"(2)[OF False found run inv] .
    have "?E\<^sup>* `` set (n # frontier) = ?E\<^sup>* `` {n} \<union> ?E\<^sup>* `` set frontier"
      by auto
    also have "\<dots> = insert n (?E\<^sup>* `` set (reaches node)) \<union> ?E\<^sup>* `` set frontier"
      using rtrancl_Image_step[of ?E n] en by simp
    finally show ?thesis using out by auto
  qed
qed

lemma traverse_Inl:
  "traverse ns fr vis = Inl e \<Longrightarrow>
     e = DanglingReference \<and> (\<exists>x \<in> (edges ns)\<^sup>* `` set fr. fmlookup ns x = None)"
proof (induction ns fr vis rule: traverse.induct)
  case (1 ns visited)
  then show ?case by simp
next
  case (2 ns n frontier visited)
  let ?E = "edges ns"
  show ?case
  proof (cases "n \<in> set visited")
    case True
    with "2.prems" have "traverse ns frontier visited = Inl e" by simp
    from "2.IH"(1)[OF True this] show ?thesis by auto
  next
    case False
    show ?thesis
    proof (cases "fmlookup ns n")
      case None
      with False "2.prems" show ?thesis by auto
    next
      case (Some node)
      with False "2.prems" have run: "traverse ns (frontier @ reaches node) (visited @ [n]) = Inl e"
        by simp
      from "2.IH"(2)[OF False Some run] obtain x where
        e: "e = DanglingReference" and x: "x \<in> ?E\<^sup>* `` set (frontier @ reaches node)"
        and nx: "fmlookup ns x = None"
        by auto
      have "?E\<^sup>* `` set (reaches node) \<subseteq> ?E\<^sup>* `` {n}"
        using rtrancl_Image_step[of ?E n] edges_Image_single[OF Some] by auto
      with x have "x \<in> ?E\<^sup>* `` set (n # frontier)" by auto
      with e nx show ?thesis by blast
    qed
  qed
qed

lemma traverse_in_store:
  "traverse ns fr vis = Inr out \<Longrightarrow> set vis \<subseteq> fmdom' ns \<Longrightarrow> set out \<subseteq> fmdom' ns"
proof (induction ns fr vis rule: traverse.induct)
  case (1 ns visited)
  then show ?case by simp
next
  case (2 ns n frontier visited)
  show ?case
  proof (cases "n \<in> set visited")
    case True
    with "2.prems" "2.IH"(1) show ?thesis by simp
  next
    case False
    with "2.prems"(1) obtain node where found: "fmlookup ns n = Some node"
      and run: "traverse ns (frontier @ reaches node) (visited @ [n]) = Inr out"
      by (auto split: option.splits)
    have "set (visited @ [n]) \<subseteq> fmdom' ns"
      using "2.prems"(2) found by (auto intro: fmdom'I)
    from "2.IH"(2)[OF False found run this] show ?thesis .
  qed
qed

lemma traverse_distinct:
  "traverse ns fr vis = Inr out \<Longrightarrow> distinct vis \<Longrightarrow> distinct out"
proof (induction ns fr vis rule: traverse.induct)
  case (1 ns visited)
  then show ?case by simp
next
  case (2 ns n frontier visited)
  show ?case
  proof (cases "n \<in> set visited")
    case True
    with "2.prems" "2.IH"(1) show ?thesis by simp
  next
    case False
    with "2.prems"(1) obtain node where found: "fmlookup ns n = Some node"
      and run: "traverse ns (frontier @ reaches node) (visited @ [n]) = Inr out"
      by (auto split: option.splits)
    have "distinct (visited @ [n])"
      using "2.prems"(2) False by simp
    from "2.IH"(2)[OF False found run this] show ?thesis .
  qed
qed

lemma traverse_roots_Inr:
  assumes "traverse ns rs [] = Inr out"
  shows "set out = reachable ns rs" and "reachable ns rs \<subseteq> fmdom' ns" and "distinct out"
proof -
  show "set out = reachable ns rs"
    using traverse_Inr[OF assms] by (simp add: reachable_def)
  then show "reachable ns rs \<subseteq> fmdom' ns"
    using traverse_in_store[OF assms] by simp
  show "distinct out"
    using traverse_distinct[OF assms] by simp
qed

lemma traverse_roots_succeeds:
  assumes "reachable ns rs \<subseteq> fmdom' ns"
  shows "\<exists>out. traverse ns rs [] = Inr out"
proof (cases "traverse ns rs []")
  case (Inl e)
  from traverse_Inl[OF Inl] obtain x where "x \<in> reachable ns rs" "fmlookup ns x = None"
    by (auto simp: reachable_def)
  with assms show ?thesis by (auto simp: fmlookup_dom'_iff)
next
  case (Inr out)
  then show ?thesis by simp
qed

section \<open>Evaluation of the example\<close>

lemmas loader_defs =
  load_def mkMetaDCEGraph_def load_node_def thenE_def node_of_def isObject_def field_def
  NAME_def REACHES_def ROOT_def EXPORT_def IMPORT_def load_reaches_def load_root_def
  load_export_def load_import_def add_node_def mkDCENode_def isBool_def getBool_def
  getImport_def isArray_with_def elements_def

lemma example_load: "load example_module example_json = Inr example_graph"
  by (simp add: example_json_def example_graph_def loader_defs)

lemma example_traverse:
  "traverse (nodes example_graph) (roots example_graph) [] = Inr [''e1'', ''name'', ''e2'']"
  by (simp add: example_graph_def)


lemma load_ok_alone:
  "(\<exists>g. load w (JArray refs) = Inr g) \<longleftrightarrow>
     (\<forall>ref\<in>set refs. \<exists>g'. load_node ref (mkMetaDCEGraph w) = Inr g')"
  by (simp add: load_def load_nodes_ok load_node_ok mkMetaDCEGraph_def)

lemma load_wasm: "load w js = Inr g \<Longrightarrow> wasm g = w"
  by (cases js) (auto simp: load_def mkMetaDCEGraph_def dest: load_nodes_wasm)

lemma load_error:
  "load w js = Inl e \<Longrightarrow> e \<noteq> DanglingReference"
  by (cases js) (auto simp: load_def dest: load_nodes_error)

lemma load_export_Some:
  "load_export ref node g = Inr g' \<Longrightarrow> field ref EXPORT = Some v \<Longrightarrow>
     \<exists>ex. v = JString ex \<and> exportToDCENode g' = fmupd ex (name node) (exportToDCENode g)"
  by (auto simp: load_export_def split: json.splits)


lemma load_import_Some:
  "load_import ref node g = Inr g' \<Longrightarrow> field ref IMPORT = Some (JArray [JString m, JString b]) \<Longrightarrow>
     \<exists>internal. getImport (wasm g) m b = Inr internal \<and>
       importToDCENode g' = fmupd internal (name node) (importToDCENode g)"
  by (auto simp: load_import_def thenE_Inr)




















lemma strings_of_mem: "JString t \<in> set items \<Longrightarrow> t \<in> set (strings_of items)"
  by (induction items) (auto split: json.splits)


lemma compute_Inr_iff:
  "compute g = Inr R \<longleftrightarrow>
     reachable (nodes g) (roots g) \<subseteq> fmdom' (nodes g) \<and> R = reachable (nodes g) (roots g)"
proof
  assume "compute g = Inr R"
  then obtain out where out: "traverse (nodes g) (roots g) [] = Inr out" and R: "R = set out"
    by (cases "traverse (nodes g) (roots g) []") (auto simp: compute_def)
  from traverse_roots_Inr(1,2)[OF out] R
  show "reachable (nodes g) (roots g) \<subseteq> fmdom' (nodes g) \<and> R = reachable (nodes g) (roots g)"
    by simp
next
  assume a: "reachable (nodes g) (roots g) \<subseteq> fmdom' (nodes g) \<and> R = reachable (nodes g) (roots g)"
  then obtain out where out: "traverse (nodes g) (roots g) [] = Inr out"
    using traverse_roots_succeeds[of "nodes g" "roots g"] by blast
  from traverse_roots_Inr(1)[OF out] a out show "compute g = Inr R"
    by (simp add: compute_def)
qed

lemma compute_Inl:
  "compute g = Inl e \<Longrightarrow> e = DanglingReference \<and> \<not> reachable (nodes g) (roots g) \<subseteq> fmdom' (nodes g)"
proof -
  assume "compute g = Inl e"
  then have t: "traverse (nodes g) (roots g) [] = Inl e"
    by (cases "traverse (nodes g) (roots g) []") (auto simp: compute_def)
  from traverse_Inl[OF t] show ?thesis
    by (auto simp: reachable_def fmlookup_dom'_iff)
qed

lemma reachable_cong: "set rs = set rs' \<Longrightarrow> reachable ns rs = reachable ns rs'"
  by (simp add: reachable_def)

lemma distinct_count_list_one: "distinct xs \<Longrightarrow> x \<in> set xs \<Longrightarrow> count_list xs x = 1"
  by (induction xs) auto

lemma find_distinct_key:
  "distinct (map f xs) \<Longrightarrow> x \<in> set xs \<Longrightarrow> find (\<lambda>r. f r = f x) xs = Some x"
proof (induction xs)
  case Nil
  then show ?case by simp
next
  case (Cons y ys)
  show ?case
  proof (cases "y = x")
    case True
    then show ?thesis by simp
  next
    case False
    with Cons.prems have x: "x \<in> set ys" and ne: "f y \<noteq> f x" and d: "distinct (map f ys)"
      by auto
    from Cons.IH[OF d x] ne show ?thesis by simp
  qed
qed

lemma find_distinct_same_set:
  assumes "distinct (map f xs)" "distinct (map f ys)" "set xs = set ys"
  shows "find (\<lambda>r. f r = n) xs = find (\<lambda>r. f r = n) ys"
proof (cases "\<exists>x\<in>set xs. f x = n")
  case True
  then obtain x where x: "x \<in> set xs" "f x = n" by blast
  from x assms(3) have y: "x \<in> set ys" by simp
  have "find (\<lambda>r. f r = f x) xs = Some x"
    using assms(1) x(1) by (rule find_distinct_key)
  moreover have "find (\<lambda>r. f r = f x) ys = Some x"
    using assms(2) y by (rule find_distinct_key)
  ultimately show ?thesis using x(2) by simp
next
  case False
  then have "find (\<lambda>r. f r = n) xs = None" "find (\<lambda>r. f r = n) ys = None"
    using assms(3) by (simp_all add: find_None_iff)
  then show ?thesis by simp
qed

lemma load_permuted_graph:
  assumes p: "mset refs = mset refs'" and d: "distinct (map rec_name refs)"
    and l: "load w (JArray refs) = Inr g" and l': "load w (JArray refs') = Inr g'"
  shows "nodes g = nodes g'" and "set (roots g) = set (roots g')"
proof -
  from l l' have run: "load_nodes refs (mkMetaDCEGraph w) = Inr g"
    and run': "load_nodes refs' (mkMetaDCEGraph w) = Inr g'"
    by (simp_all add: load_def)
  from p have s: "set refs = set refs'" by (rule mset_eq_setD)
  from p have "mset (map rec_name refs) = mset (map rec_name refs')" by simp
  with d have d': "distinct (map rec_name refs')"
    using mset_eq_imp_distinct_iff by blast
  have f: "find (\<lambda>r. rec_name r = n) (rev refs) = find (\<lambda>r. rec_name r = n) (rev refs')" for n
    using d d' s by (intro find_distinct_same_set) (simp_all add: rev_map[symmetric])
  show "nodes g = nodes g'"
    by (rule fmap_ext) (simp add: load_nodes_lookup[OF run] load_nodes_lookup[OF run'] f)
  show "set (roots g) = set (roots g')"
    using s by (simp add: load_nodes_roots[OF run] load_nodes_roots[OF run'])
qed

lemma load_permuted_ok:
  assumes "mset refs = mset refs'"
  shows "(\<exists>g. load w (JArray refs) = Inr g) \<longleftrightarrow> (\<exists>g. load w (JArray refs') = Inr g)"
proof -
  from assms have "set refs = set refs'" by (rule mset_eq_setD)
  then show ?thesis
    using load_ok[of w "JArray refs"] load_ok[of w "JArray refs'"] by simp
qed



lemma example_compute: "compute example_graph = Inr {''e1'', ''name'', ''e2''}"
  by (simp add: compute_def example_traverse)


lemma cycle_traverse:
  "traverse (nodes cycle_graph) (roots cycle_graph) [] = Inr [''A'', ''B'']"
  by (simp add: cycle_graph_def)




section \<open>The claims\<close>

text \<open>
  C10. After the loader has completed successfully, every name in the root sequence is the
  name of a node in the node store: a root is registered only while the record bearing that
  name is processed, and that record's node is inserted in the same iteration.
\<close>

theorem load_roots_in_store:
  assumes "load w js = Inr g"
  shows "\<forall>r\<in>set (roots g). \<exists>node. fmlookup (nodes g) r = Some node \<and> name node = r"
proof
  fix r assume r: "r \<in> set (roots g)"
  from assms obtain refs where js: "js = JArray refs"
    and run: "load_nodes refs (mkMetaDCEGraph w) = Inr g"
    by (cases js) (simp_all add: load_def)
  from load_nodes_roots[OF run] r obtain x where "x \<in> set refs" "rec_name x = r"
    by (auto simp: mkMetaDCEGraph_def)
  then have "find (\<lambda>y. rec_name y = r) (rev refs) \<noteq> None"
    by (auto simp: find_None_iff)
  then obtain y where y: "find (\<lambda>y. rec_name y = r) (rev refs) = Some y"
    by auto
  then have "rec_name y = r"
    by (auto simp: find_Some_iff)
  with load_nodes_lookup[OF run, of r] y
  show "\<exists>node. fmlookup (nodes g) r = Some node \<and> name node = r"
    by (simp add: rec_node_def)
qed

theorem load_roots_in_store_witness:
  "load example_module example_json = Inr example_graph \<and>
   ''e1'' \<in> set (roots example_graph) \<and>
   (\<exists>node. fmlookup (nodes example_graph) ''e1'' = Some node \<and> name node = ''e1'')"
proof -
  have r: "''e1'' \<in> set (roots example_graph)"
    by (simp add: example_graph_def)
  from load_roots_in_store[OF example_load] r example_load show ?thesis
    by blast
qed

text \<open>
  C7. A second record with the name of an earlier record is not an error, and the later
  record's node replaces the earlier one: when every record of the input loads on its own,
  the whole input loads, each name of the store is bound to the node of the last record
  that bears it, and the node bound to a name has that name.
\<close>

theorem load_last_write_wins:
  assumes "\<forall>ref\<in>set refs. \<exists>g'. load_node ref (mkMetaDCEGraph w) = Inr g'"
  shows "\<exists>g. load w (JArray refs) = Inr g \<and>
           (\<forall>n. fmlookup (nodes g) n =
                  map_option rec_node (find (\<lambda>r. rec_name r = n) (rev refs))) \<and>
           (\<forall>n node. fmlookup (nodes g) n = Some node \<longrightarrow> name node = n)"
proof -
  from assms obtain g where g: "load w (JArray refs) = Inr g"
    using load_ok_alone[of w refs] by blast
  then have run: "load_nodes refs (mkMetaDCEGraph w) = Inr g"
    by (simp add: load_def)
  have look: "fmlookup (nodes g) n =
                map_option rec_node (find (\<lambda>r. rec_name r = n) (rev refs))" for n
    using load_nodes_lookup[OF run, of n]
    by (simp add: mkMetaDCEGraph_def split: option.splits)
  have "name node = n" if "fmlookup (nodes g) n = Some node" for n node
  proof -
    from that look[of n] obtain r where
      "find (\<lambda>r. rec_name r = n) (rev refs) = Some r" "node = rec_node r"
      by auto
    then show ?thesis by (auto simp: find_Some_iff rec_node_def)
  qed
  with g look show ?thesis by blast
qed

theorem load_last_write_wins_witness:
  "\<exists>g. load example_module (JArray dup_records) = Inr g \<and>
       fmlookup (nodes g) ''a'' = Some \<lparr>name = ''a'', reaches = []\<rparr> \<and>
       fmlookup (nodes g) ''b'' = Some \<lparr>name = ''b'', reaches = []\<rparr>"
proof -
  have each: "\<forall>ref\<in>set dup_records. \<exists>g'. load_node ref (mkMetaDCEGraph example_module) = Inr g'"
    by (simp add: dup_records_def loader_defs)
  have a: "map_option rec_node (find (\<lambda>r. rec_name r = ''a'') (rev dup_records))
             = Some \<lparr>name = ''a'', reaches = []\<rparr>"
    by (simp add: dup_records_def rec_node_def rec_name_def rec_reaches_def field_def
        NAME_def REACHES_def)
  have b: "map_option rec_node (find (\<lambda>r. rec_name r = ''b'') (rev dup_records))
             = Some \<lparr>name = ''b'', reaches = []\<rparr>"
    by (simp add: dup_records_def rec_node_def rec_name_def rec_reaches_def field_def
        NAME_def REACHES_def)
  from load_last_write_wins[OF each] obtain g where
    g: "load example_module (JArray dup_records) = Inr g" and
    look: "\<And>n. fmlookup (nodes g) n =
             map_option rec_node (find (\<lambda>r. rec_name r = n) (rev dup_records))"
    by blast
  have "fmlookup (nodes g) ''a'' = Some \<lparr>name = ''a'', reaches = []\<rparr>"
    using look[of "''a''"] a by (simp only:)
  moreover have "fmlookup (nodes g) ''b'' = Some \<lparr>name = ''b'', reaches = []\<rparr>"
    using look[of "''b''"] b by (simp only:)
  ultimately show ?thesis using g by blast
qed

text \<open>
  C3, as the claim states it, fails on the loader: the graph whose node \<open>b\<close> reaches the
  names \<open>name\<close> and \<open>ghost\<close>, which no record bears, is loaded without an error, with both
  among the edges of \<open>b\<close>, and the program ends after the load.
\<close>

theorem load_dangling_counterexample:
  "load bare_module dangling_json = Inr dangling_graph \<and>
   fmlookup (nodes dangling_graph) ''b'' = Some \<lparr>name = ''b'', reaches = [''name'', ''ghost'']\<rparr> \<and>
   fmlookup (nodes dangling_graph) ''ghost'' = None \<and>
   fmlookup (nodes dangling_graph) ''name'' = None \<and>
   load bare_module dangling_json \<noteq> Inl DanglingReference"
  by (simp add: dangling_json_def dangling_records_def dangling_graph_def bare_module_def
      loader_defs)

text \<open>
  C3, amended. The loader compares no \<open>reaches\<close> target with the loaded names: an input
  loads exactly when each of its records loads on its own, the loader never fails with
  DanglingReference, a successful load leaves the module as it was, and the node stored
  under a name has as its edges the strings of the \<open>reaches\<close> array of the last record that
  bears the name, whether they name a node or not.
\<close>

theorem load_checks_no_target:
  "((\<exists>g. load w (JArray refs) = Inr g) \<longleftrightarrow>
      (\<forall>ref\<in>set refs. \<exists>g'. load_node ref (mkMetaDCEGraph w) = Inr g')) \<and>
   load w js \<noteq> Inl DanglingReference \<and>
   (\<forall>g. load w js = Inr g \<longrightarrow> wasm g = w) \<and>
   (\<forall>g n ref items.
      load w (JArray refs) = Inr g \<and> find (\<lambda>r. rec_name r = n) (rev refs) = Some ref \<and>
      field ref REACHES = Some (JArray items) \<longrightarrow>
        fmlookup (nodes g) n = Some \<lparr>name = n, reaches = strings_of items\<rparr> \<and>
        (\<forall>t. JString t \<in> set items \<longrightarrow> t \<in> set (strings_of items)))"
proof -
  have kept: "fmlookup (nodes g) n = Some \<lparr>name = n, reaches = strings_of items\<rparr>"
    if l: "load w (JArray refs) = Inr g"
      and f: "find (\<lambda>r. rec_name r = n) (rev refs) = Some ref"
      and r: "field ref REACHES = Some (JArray items)" for g n ref items
  proof -
    from l have run: "load_nodes refs (mkMetaDCEGraph w) = Inr g"
      by (simp add: load_def)
    from f have "rec_name ref = n"
      by (auto simp: find_Some_iff)
    moreover from r have "rec_reaches ref = strings_of items"
      by (simp add: rec_reaches_def)
    ultimately show ?thesis
      using load_nodes_lookup[OF run, of n] f by (simp add: rec_node_def)
  qed
  show ?thesis
    using load_ok_alone[of w refs] load_error[of w js] load_wasm[of w js] kept strings_of_mem
    by blast
qed

theorem load_checks_no_target_witness:
  "load bare_module dangling_json = Inr dangling_graph \<and>
   wasm dangling_graph = bare_module \<and>
   load bare_module dangling_json \<noteq> Inl DanglingReference \<and>
   fmlookup (nodes dangling_graph) ''b'' =
     Some \<lparr>name = ''b'', reaches = strings_of [JString ''name'', JString ''ghost'']\<rparr> \<and>
   ''ghost'' \<in> set (strings_of [JString ''name'', JString ''ghost''])"
proof -
  have l: "load bare_module (JArray dangling_records) = Inr dangling_graph"
    by (simp add: dangling_records_def dangling_graph_def bare_module_def loader_defs)
  have f: "find (\<lambda>r. rec_name r = ''b'') (rev dangling_records) =
             Some (JObject [(''name'', JString ''b''),
                            (''reaches'', JArray [JString ''name'', JString ''ghost''])])"
    by (simp add: dangling_records_def rec_name_def field_def NAME_def)
  have r: "field (JObject [(''name'', JString ''b''),
                           (''reaches'', JArray [JString ''name'', JString ''ghost''])]) REACHES
             = Some (JArray [JString ''name'', JString ''ghost''])"
    by (simp add: field_def REACHES_def)
  have m: "JString ''ghost'' \<in> set [JString ''name'', JString ''ghost'']"
    by simp
  from load_checks_no_target[of bare_module dangling_records "JArray dangling_records"] l f r m
  show ?thesis
    unfolding dangling_json_def by blast
qed









text \<open>
  C1. For every graph, the Reachable Set that the traversal computes contains every root
  name and is closed under \<open>reaches\<close>: when \<open>n\<close> is in the set, the node of \<open>n\<close> reaches \<open>m\<close>
  and \<open>m\<close> is the name of a node of the store, \<open>m\<close> is in the set. The set is the set of the
  names that can be reached from the roots along the edges.
\<close>

theorem compute_closed:
  assumes "compute g = Inr R"
  shows "set (roots g) \<subseteq> R \<and>
         (\<forall>n node m. n \<in> R \<and> fmlookup (nodes g) n = Some node \<and> m \<in> set (reaches node) \<and>
                     m \<in> fmdom' (nodes g) \<longrightarrow> m \<in> R) \<and>
         R = reachable (nodes g) (roots g)"
proof -
  from assms have R: "R = (edges (nodes g))\<^sup>* `` set (roots g)"
    by (simp add: compute_Inr_iff reachable_def)
  have "set (roots g) \<subseteq> R"
    unfolding R by auto
  moreover have "m \<in> R"
    if "n \<in> R" "fmlookup (nodes g) n = Some node" "m \<in> set (reaches node)" for n node m
  proof -
    from that(2,3) have "(n, m) \<in> edges (nodes g)"
      by (auto simp: edges_def)
    with that(1) show ?thesis
      unfolding R by (auto intro: rtrancl_into_rtrancl)
  qed
  ultimately show ?thesis
    using R unfolding reachable_def by blast
qed

theorem compute_closed_witness:
  "compute example_graph = Inr {''e1'', ''name'', ''e2''} \<and>
   set (roots example_graph) \<subseteq> {''e1'', ''name'', ''e2''} \<and>
   {''e1'', ''name'', ''e2''} = reachable (nodes example_graph) (roots example_graph)"
  using compute_closed[OF example_compute] example_compute by blast

text \<open>
  C8. For every graph with a cycle between \<open>a\<close> and \<open>b\<close>, \<open>a\<close> being a root, the traversal
  terminates: it is a total function, and its value is either the list of the expanded
  names, in which \<open>a\<close> and \<open>b\<close> occur exactly once each and no name occurs twice, or the
  DanglingReference error, which it is only when a name that can be reached from the roots
  is not in the store.
\<close>

theorem traverse_cycle:
  assumes "fmlookup (nodes g) a = Some na" and "b \<in> set (reaches na)"
    and "fmlookup (nodes g) b = Some nb" and "a \<in> set (reaches nb)"
    and "a \<in> set (roots g)"
  shows "(\<exists>out. traverse (nodes g) (roots g) [] = Inr out \<and> distinct out \<and>
                count_list out a = 1 \<and> count_list out b = 1 \<and>
                compute g = Inr (set out)) \<or>
         (traverse (nodes g) (roots g) [] = Inl DanglingReference \<and>
          \<not> reachable (nodes g) (roots g) \<subseteq> fmdom' (nodes g))"
proof (cases "traverse (nodes g) (roots g) []")
  case (Inl e)
  then have "compute g = Inl e" by (simp add: compute_def)
  from compute_Inl[OF this] Inl show ?thesis by simp
next
  case (Inr out)
  from traverse_roots_Inr[OF Inr] have out: "set out = reachable (nodes g) (roots g)"
    and d: "distinct out"
    by simp_all
  have ab: "(a, b) \<in> edges (nodes g)"
    using assms(1,2) by (auto simp: edges_def)
  have "a \<in> set out"
    unfolding out reachable_def using assms(5) by auto
  moreover have "b \<in> set out"
    unfolding out reachable_def using assms(5) ab by auto
  ultimately have "count_list out a = 1" "count_list out b = 1"
    using d by (simp_all add: distinct_count_list_one)
  moreover have "compute g = Inr (set out)"
    using Inr by (simp add: compute_def)
  ultimately show ?thesis using Inr d by blast
qed

theorem traverse_cycle_witness:
  "traverse (nodes cycle_graph) (roots cycle_graph) [] = Inr [''A'', ''B''] \<and>
   count_list [''A'', ''B''] ''A'' = 1 \<and> count_list [''A'', ''B''] ''B'' = 1 \<and>
   compute cycle_graph = Inr {''A'', ''B''}"
proof -
  have a: "fmlookup (nodes cycle_graph) ''A'' = Some \<lparr>name = ''A'', reaches = [''B'']\<rparr>"
    by (simp add: cycle_graph_def)
  have b: "fmlookup (nodes cycle_graph) ''B'' = Some \<lparr>name = ''B'', reaches = [''A'']\<rparr>"
    by (simp add: cycle_graph_def)
  have r: "''A'' \<in> set (roots cycle_graph)"
    by (simp add: cycle_graph_def)
  from traverse_cycle[OF a _ b _ r] cycle_traverse show ?thesis
    by auto
qed




text \<open>
  C9, as the claim states it, fails on the loader: the two orders of the same four
  records, of which two bear the name \<open>a\<close>, load to stores that differ in the edges of \<open>a\<close>
  and give different Reachable Sets, since the later record of a name replaces the earlier
  one.
\<close>

theorem load_order_counterexample:
  "mset order_one = mset order_two \<and>
   map_sum id (\<lambda>g. fmlookup (nodes g) ''a'') (load bare_module (JArray order_one)) =
     Inr (Some \<lparr>name = ''a'', reaches = []\<rparr>) \<and>
   map_sum id (\<lambda>g. fmlookup (nodes g) ''a'') (load bare_module (JArray order_two)) =
     Inr (Some \<lparr>name = ''a'', reaches = [''name'', ''b'']\<rparr>) \<and>
   thenE (load bare_module (JArray order_one)) compute = Inr {''a''} \<and>
   thenE (load bare_module (JArray order_two)) compute = Inr {''a'', ''name'', ''b''}"
  by (simp add: order_one_def order_two_def bare_module_def loader_defs compute_def)

text \<open>
  C9, amended. For two sequences of records that are permutations of each other and in
  which no two records bear the same name, loading each and computing reachability has the
  same outcome: the one yields a Reachable Set exactly when the other yields that set.
\<close>

theorem load_order_independent:
  assumes "mset refs = mset refs'" and "distinct (map rec_name refs)"
  shows "thenE (load w (JArray refs)) compute = Inr R \<longleftrightarrow>
         thenE (load w (JArray refs')) compute = Inr R"
proof -
  have dir: "thenE (load w (JArray ys)) compute = Inr R"
    if p: "mset xs = mset ys" and d: "distinct (map rec_name xs)"
      and run: "thenE (load w (JArray xs)) compute = Inr R" for xs ys
  proof -
    from run obtain g where g: "load w (JArray xs) = Inr g" and c: "compute g = Inr R"
      by (auto simp: thenE_Inr)
    from g obtain g' where g': "load w (JArray ys) = Inr g'"
      using load_permuted_ok[OF p, of w] by blast
    from load_permuted_graph[OF p d g g'] have n: "nodes g = nodes g'"
      and r: "set (roots g) = set (roots g')"
      by simp_all
    from c have "compute g' = Inr R"
      unfolding compute_Inr_iff n reachable_cong[OF r] .
    with g' show ?thesis by (simp add: thenE_def)
  qed
  from assms(1) have "mset (map rec_name refs) = mset (map rec_name refs')" by simp
  with assms(2) have d': "distinct (map rec_name refs')"
    using mset_eq_imp_distinct_iff by blast
  show ?thesis
    using dir[OF assms(1) assms(2)] dir[OF assms(1)[symmetric] d'] by blast
qed

theorem load_order_independent_witness:
  "thenE (load example_module example_json) compute = Inr {''e1'', ''name'', ''e2''} \<and>
   thenE (load example_module (JArray example_permuted)) compute = Inr {''e1'', ''name'', ''e2''}"
proof -
  have p: "mset (elements example_json) = mset example_permuted"
    by (simp add: example_json_def example_permuted_def elements_def)
  have d: "distinct (map rec_name (elements example_json))"
    by (simp add: example_json_def elements_def rec_name_def field_def NAME_def)
  have j: "JArray (elements example_json) = example_json"
    by (simp add: example_json_def elements_def)
  have one: "thenE (load example_module example_json) compute = Inr {''e1'', ''name'', ''e2''}"
    by (simp add: example_load example_compute thenE_def)
  from load_order_independent[OF p d, of example_module "{''e1'', ''name'', ''e2''}"] one j
  show ?thesis by simp
qed

end
